theory Spec2Isabelle
  imports Main
begin

section \<open>Python values used by \<open>craw_java_method.py\<close>\<close>

text \<open>
  A Python \<open>str\<close> is modelled as a \<open>string\<close>: every \<open>char\<close> stands for one code point in
  the range 0..255, so the development covers source text over that range. Python integers
  are unbounded and modelled as \<open>int\<close>. A raised exception is a value \<open>Inl e\<close>.
\<close>

datatype error = IndexError

text \<open>\<open>xs[i]\<close>: a negative index counts from the end; outside the list it raises.\<close>

definition py_index :: "'a list \<Rightarrow> int \<Rightarrow> error + 'a" where
  "py_index xs i =
     (if 0 \<le> i \<and> i < int (length xs) then Inr (xs ! nat i)
      else if i < 0 \<and> 0 \<le> int (length xs) + i then Inr (xs ! nat (int (length xs) + i))
      else Inl IndexError)"

text \<open>\<open>s.count(c)\<close> for a one-character \<open>c\<close>.\<close>

definition str_count :: "string \<Rightarrow> char \<Rightarrow> int" where
  "str_count s c = int (count_list s c)"

section \<open>\<open>_brace_matched_end\<close>\<close>

text \<open>
  The \<open>while\<close> loop that looks for the first line with an opening brace. The index
  \<open>open_i\<close> is a Python integer; the loop stops when it reaches the number of lines.
\<close>

function find_open :: "string list \<Rightarrow> int \<Rightarrow> error + int" where
  "find_open lines open_i =
     (if open_i < int (length lines) then
        (case py_index lines open_i of
           Inl e \<Rightarrow> Inl e
         | Inr l \<Rightarrow>
             if CHR ''{'' \<notin> set l then find_open lines (open_i + 1) else Inr open_i)
      else Inr open_i)"
  by pat_completeness auto
termination
  by (relation "measure (\<lambda>(lines, open_i). nat (int (length lines) - open_i))") auto

text \<open>The \<open>for j in range(open_i, len(lines))\<close> loop with its running depth.\<close>

function depth_loop :: "string list \<Rightarrow> int \<Rightarrow> int \<Rightarrow> error + int option" where
  "depth_loop lines j depth =
     (if j < int (length lines) then
        (case py_index lines j of
           Inl e \<Rightarrow> Inl e
         | Inr l \<Rightarrow>
             (let depth1 = depth + str_count l (CHR ''{'');
                  depth2 = depth1 - str_count l (CHR ''}'')
              in if depth2 = 0 then Inr (Some (j + 1))
                 else depth_loop lines (j + 1) depth2))
      else Inr None)"
  by pat_completeness auto
termination
  by (relation "measure (\<lambda>(lines, j, depth). nat (int (length lines) - j))") auto

declare find_open.simps [simp del] depth_loop.simps [simp del]

definition brace_matched_end :: "string list \<Rightarrow> int \<Rightarrow> error + int option" where
  "brace_matched_end lines start_line =
     (case find_open lines (start_line - 1) of
        Inl e \<Rightarrow> Inl e
      | Inr open_i \<Rightarrow>
          if open_i \<ge> int (length lines) then Inr None
          else depth_loop lines open_i 0)"

subsection \<open>Vocabulary of the brace-matching claims\<close>

text \<open>Net brace count of one line: openings minus closings.\<close>

definition net :: "string \<Rightarrow> int" where
  "net l = str_count l (CHR ''{'') - str_count l (CHR ''}'')"

definition has_open :: "string \<Rightarrow> bool" where
  "has_open l \<longleftrightarrow> CHR ''{'' \<in> set l"

text \<open>
  \<open>first_open lines i\<close> is the 0-based index of the first line at index \<open>i\<close> or later
  that contains an opening brace.
\<close>

definition first_open :: "string list \<Rightarrow> nat \<Rightarrow> nat option" where
  "first_open lines i =
     (let p = i + length (takeWhile (\<lambda>l. \<not> has_open l) (drop i lines))
      in if p < length lines then Some p else None)"

text \<open>
  Running depth after the line with 0-based index \<open>j\<close>, counted from the line with
  index \<open>b\<close> on.
\<close>

definition running_depth :: "string list \<Rightarrow> nat \<Rightarrow> nat \<Rightarrow> int" where
  "running_depth lines b j = sum_list (map net (take (Suc j - b) (drop b lines)))"

text \<open>
  Position, in a list of lines, of the first one after which the depth \<open>d\<close> plus the net
  counts so far is zero.
\<close>

fun first_zero :: "int \<Rightarrow> string list \<Rightarrow> nat option" where
  "first_zero d [] = None"
| "first_zero d (l # ls) =
     (if d + net l = 0 then Some 0 else map_option Suc (first_zero (d + net l) ls))"

text \<open>
  The matching closing brace, character by character. \<open>scan_line d l\<close> reads the line
  \<open>l\<close> inside a block of depth \<open>d\<close>: \<open>Inr rest\<close> when the brace that closes the block
  is in the line, with the text that follows it, and \<open>Inl d'\<close>, the depth at the end of the
  line, otherwise.
\<close>

fun scan_line :: "nat \<Rightarrow> string \<Rightarrow> nat + string" where
  "scan_line d [] = Inl d"
| "scan_line d (c # cs) =
     (if c = CHR ''{'' then scan_line (Suc d) cs
      else if c = CHR ''}'' then (if d \<le> 1 then Inr cs else scan_line (d - 1) cs)
      else scan_line d cs)"

text \<open>
  \<open>scan_lines d n ls\<close> continues over the lines \<open>ls\<close>, the first of which has 0-based
  index \<open>n\<close>: the index of the line with the closing brace and the text after the brace.
\<close>

fun scan_lines :: "nat \<Rightarrow> nat \<Rightarrow> string list \<Rightarrow> (nat \<times> string) option" where
  "scan_lines d n [] = None"
| "scan_lines d n (l # ls) =
     (case scan_line d l of
        Inr rest \<Rightarrow> Some (n, rest)
      | Inl d' \<Rightarrow> scan_lines d' (Suc n) ls)"

text \<open>
  The brace matching the first opening brace of the line with index \<open>p\<close>: the scan starts
  at that opening brace, outside any block.
\<close>

definition matching_close :: "string list \<Rightarrow> nat \<Rightarrow> (nat \<times> string) option" where
  "matching_close lines p =
     scan_lines 0 p (dropWhile (\<lambda>c. c \<noteq> CHR ''{'') (lines ! p) # drop (Suc p) lines)"

text \<open>
  Well-formed nesting of a text, character by character: no closing brace without an open
  block, and no block left open at the end.
\<close>

fun nesting :: "nat \<Rightarrow> string \<Rightarrow> nat option" where
  "nesting d [] = Some d"
| "nesting d (c # cs) =
     (if c = CHR ''{'' then nesting (Suc d) cs
      else if c = CHR ''}'' then (if d = 0 then None else nesting (d - 1) cs)
      else nesting d cs)"

definition well_nested :: "string list \<Rightarrow> bool" where
  "well_nested lines \<longleftrightarrow> nesting 0 (concat lines) = Some 0"

section \<open>Character classes of Python's \<open>re\<close> and \<open>str\<close>\<close>

definition code_point :: "char \<Rightarrow> nat" where
  "code_point c = of_char c"

text \<open>\<open>[A-Za-z_]\<close>\<close>

definition is_ident_start :: "char \<Rightarrow> bool" where
  "is_ident_start c \<longleftrightarrow>
     (65 \<le> code_point c \<and> code_point c \<le> 90) \<or>
     (97 \<le> code_point c \<and> code_point c \<le> 122) \<or> c = CHR ''_''"

text \<open>\<open>\d\<close>: the decimal digits; below code point 256 these are \<open>0\<close> to \<open>9\<close>.\<close>

definition is_digit :: "char \<Rightarrow> bool" where
  "is_digit c \<longleftrightarrow> 48 \<le> code_point c \<and> code_point c \<le> 57"

text \<open>\<open>[A-Za-z0-9_]\<close>\<close>

definition is_ident_char :: "char \<Rightarrow> bool" where
  "is_ident_char c \<longleftrightarrow>
     (65 \<le> code_point c \<and> code_point c \<le> 90) \<or>
     (97 \<le> code_point c \<and> code_point c \<le> 122) \<or>
     (48 \<le> code_point c \<and> code_point c \<le> 57) \<or> c = CHR ''_''"

text \<open>
  \<open>\s\<close> and \<open>str.isspace\<close>: tab, line feed, vertical tab, form feed, carriage return,
  the separators 0x1C to 0x1F, space, next line (0x85) and no-break space (0xA0).
\<close>

definition is_space :: "char \<Rightarrow> bool" where
  "is_space c \<longleftrightarrow>
     (9 \<le> code_point c \<and> code_point c \<le> 13) \<or>
     (28 \<le> code_point c \<and> code_point c \<le> 32) \<or>
     code_point c = 133 \<or> code_point c = 160"

text \<open>
  The line boundaries of \<open>str.splitlines\<close>: line feed, vertical tab, form feed, carriage
  return, the separators 0x1C to 0x1E and next line (0x85).
\<close>

definition is_linebreak :: "char \<Rightarrow> bool" where
  "is_linebreak c \<longleftrightarrow>
     (10 \<le> code_point c \<and> code_point c \<le> 13) \<or>
     (28 \<le> code_point c \<and> code_point c \<le> 30) \<or> code_point c = 133"

abbreviation newline :: char where "newline \<equiv> CHR 0x0A"
abbreviation carriage_return :: char where "carriage_return \<equiv> CHR 0x0D"
abbreviation dquote :: char where "dquote \<equiv> CHR 0x22"
abbreviation squote :: char where "squote \<equiv> CHR 0x27"

section \<open>\<open>tokenize_code\<close>\<close>

text \<open>
  The pattern is an alternation; at a position the alternatives are tried from left to
  right and the first that matches gives the token. Each function below is one
  alternative, applied to the text that starts at the position.
\<close>

text \<open>\<open>[A-Za-z_][A-Za-z0-9_]*\<close>, greedy.\<close>

fun match_identifier :: "string \<Rightarrow> string option" where
  "match_identifier [] = None"
| "match_identifier (c # cs) =
     (if is_ident_start c then Some (c # takeWhile is_ident_char cs) else None)"

text \<open>\<open>\d+\<close>, greedy.\<close>

fun match_number :: "string \<Rightarrow> string option" where
  "match_number [] = None"
| "match_number (c # cs) =
     (if is_digit c then Some (c # takeWhile is_digit cs) else None)"

text \<open>
  \<open>".*?"\<close> and \<open>'.*?'\<close> for the quote \<open>q\<close>: with \<open>re.S\<close> the dot matches every character,
  and the lazy star stops at the first later quote; without one the alternative fails.
\<close>

fun match_quoted :: "char \<Rightarrow> string \<Rightarrow> string option" where
  "match_quoted q [] = None"
| "match_quoted q (c # cs) =
     (if c = q \<and> q \<in> set cs then Some (q # takeWhile (\<lambda>x. x \<noteq> q) cs @ [q]) else None)"

text \<open>\<open>==|!=|<=|>=|&&|\|\|\<close>\<close>

fun match_operator :: "string \<Rightarrow> string option" where
  "match_operator (c # d # cs) =
     (if [c, d] \<in> {''=='', ''!='', ''<='', ''>='', ''&&'', ''||''} then Some [c, d] else None)"
| "match_operator cs = None"

text \<open>\<open>[^\s]\<close>\<close>

fun match_other :: "string \<Rightarrow> string option" where
  "match_other [] = None"
| "match_other (c # cs) = (if is_space c then None else Some [c])"

definition or_else :: "'a option \<Rightarrow> 'a option \<Rightarrow> 'a option" where
  "or_else a b = (case a of Some x \<Rightarrow> Some x | None \<Rightarrow> b)"

definition match_token :: "string \<Rightarrow> string option" where
  "match_token s =
     or_else (match_identifier s)
    (or_else (match_number s)
    (or_else (match_quoted dquote s)
    (or_else (match_quoted squote s)
    (or_else (match_operator s)
             (match_other s)))))"

lemma or_else_Some: "or_else a b = Some t \<Longrightarrow> a = Some t \<or> b = Some t"
  by (cases a) (simp_all add: or_else_def)

lemma match_identifier_length:
  "match_identifier s = Some t \<Longrightarrow> 0 < length t \<and> length t \<le> length s"
  by (cases s) (auto split: if_splits intro: length_takeWhile_le)

lemma match_number_length:
  "match_number s = Some t \<Longrightarrow> 0 < length t \<and> length t \<le> length s"
  by (cases s) (auto split: if_splits intro: length_takeWhile_le)

lemma takeWhile_neq_length: "q \<in> set cs \<Longrightarrow> length (takeWhile (\<lambda>x. x \<noteq> q) cs) < length cs"
  by (induction cs) auto

lemma match_quoted_length:
  "match_quoted q s = Some t \<Longrightarrow> 0 < length t \<and> length t \<le> length s"
proof (cases s)
  case Nil
  assume "match_quoted q s = Some t"
  then show ?thesis using Nil by simp
next
  case (Cons c cs)
  assume "match_quoted q s = Some t"
  then have "q \<in> set cs" and "t = q # takeWhile (\<lambda>x. x \<noteq> q) cs @ [q]"
    using Cons by (simp_all split: if_splits)
  then show ?thesis using Cons takeWhile_neq_length[of q cs] by simp
qed

lemma match_operator_length:
  "match_operator s = Some t \<Longrightarrow> 0 < length t \<and> length t \<le> length s"
  by (induction s rule: match_operator.induct) (auto split: if_splits)

lemma match_other_length:
  "match_other s = Some t \<Longrightarrow> 0 < length t \<and> length t \<le> length s"
  by (cases s) (auto split: if_splits)

lemma match_token_length:
  "match_token s = Some t \<Longrightarrow> 0 < length t \<and> length t \<le> length s"
  unfolding match_token_def
  by (blast dest: or_else_Some match_identifier_length match_number_length
        match_quoted_length match_operator_length match_other_length)

text \<open>
  \<open>re.findall\<close>: the scan tries the pattern at each position from left to right; a match
  is emitted and the scan resumes after it, otherwise it moves one character on.
\<close>

function findall_tokens :: "string \<Rightarrow> string list" where
  "findall_tokens [] = []"
| "findall_tokens (c # cs) =
     (case match_token (c # cs) of
        None \<Rightarrow> findall_tokens cs
      | Some t \<Rightarrow> t # findall_tokens (drop (length t) (c # cs)))"
  by pat_completeness auto
termination
proof (relation "measure length")
  fix c cs t
  assume "match_token (c # cs) = Some t"
  then have "0 < length t" using match_token_length by blast
  then show "(drop (length t) (c # cs), c # cs) \<in> measure length" by simp
qed simp_all

definition tokenize_code :: "string \<Rightarrow> string list" where
  "tokenize_code text = findall_tokens text"

text \<open>A token in quotes: at least two characters, the first and last the same quote.\<close>

definition quoted :: "string \<Rightarrow> bool" where
  "quoted t \<longleftrightarrow> 2 \<le> length t \<and> hd t = last t \<and> (hd t = dquote \<or> hd t = squote)"

section \<open>\<open>_strip_java_comments_for_check\<close>\<close>

text \<open>
  \<open>find_close s\<close>: the number of characters the lazy \<open>.*?\<close> takes before the first
  \<open>*/\<close> in \<open>s\<close>.
\<close>

fun find_close :: "string \<Rightarrow> nat option" where
  "find_close (c # d # cs) =
     (if c = CHR ''*'' \<and> d = CHR ''/'' then Some 0
      else map_option Suc (find_close (d # cs)))"
| "find_close cs = None"

text \<open>
  Length of the match of \<open>//.*?$|/\*.*?\*/\<close> at the start of the text. With \<open>re.M\<close> the
  \<open>$\<close> holds at the end of the text and before a line feed, so the first alternative takes
  the rest of the line; the second needs a closing \<open>*/\<close> after the opening \<open>/*\<close>.
\<close>

fun match_comment :: "string \<Rightarrow> nat option" where
  "match_comment (c # d # cs) =
     (if c = CHR ''/'' \<and> d = CHR ''/'' then Some (2 + length (takeWhile (\<lambda>x. x \<noteq> newline) cs))
      else if c = CHR ''/'' \<and> d = CHR ''*'' then map_option (\<lambda>k. 2 + k + 2) (find_close cs)
      else None)"
| "match_comment cs = None"

text \<open>\<open>re.sub\<close> with the empty replacement: matches are dropped, the rest is kept.\<close>

function sub_comments :: "string \<Rightarrow> string" where
  "sub_comments [] = []"
| "sub_comments (c # cs) =
     (case match_comment (c # cs) of
        None \<Rightarrow> c # sub_comments cs
      | Some n \<Rightarrow> sub_comments (drop n (c # cs)))"
  by pat_completeness auto
termination
proof (relation "measure length")
  fix c cs n
  assume "match_comment (c # cs) = Some n"
  then have "0 < n" by (cases cs) (auto split: if_splits)
  then show "(drop n (c # cs), c # cs) \<in> measure length" by simp
qed simp_all

definition strip_java_comments_for_check :: "string \<Rightarrow> string" where
  "strip_java_comments_for_check src = sub_comments src"

section \<open>\<open>filter_invalid_methods\<close>\<close>

text \<open>
  \<open>str.splitlines\<close>: a line ends at a line boundary, \<open>\r\n\<close> counts as one, and no empty
  line is added after a final boundary.
\<close>

function splitlines :: "string \<Rightarrow> string list" where
  "splitlines s =
     (if s = [] then []
      else (case dropWhile (\<lambda>c. \<not> is_linebreak c) s of
              [] \<Rightarrow> [s]
            | b # rest \<Rightarrow>
                takeWhile (\<lambda>c. \<not> is_linebreak c) s #
                splitlines (if b = carriage_return \<and> rest \<noteq> [] \<and> hd rest = newline
                            then tl rest else rest)))"
  by pat_completeness auto
termination
proof (relation "measure length")
  fix s :: string and b rest
  assume "dropWhile (\<lambda>c. \<not> is_linebreak c) s = b # rest"
  then have "length (b # rest) \<le> length s"
    by (metis length_dropWhile_le)
  then show "((if b = carriage_return \<and> rest \<noteq> [] \<and> hd rest = newline then tl rest else rest), s)
      \<in> measure length"
    by (cases rest) auto
qed simp_all

declare splitlines.simps [simp del]

text \<open>\<open>str.strip()\<close>: leading and trailing whitespace removed.\<close>

definition py_strip :: "string \<Rightarrow> string" where
  "py_strip s = rev (dropWhile is_space (rev (dropWhile is_space s)))"

record method_record =
  method_name :: string
  start_line :: int
  end_line :: int
  signature :: string
  original_code :: string
  code_tokens :: "string list"

text \<open>The body of the \<open>for m in methods\<close> loop; \<open>cleaned\<close> is the list built so far.\<close>

fun filter_loop ::
  "method_record list \<Rightarrow> int \<Rightarrow> int \<Rightarrow> method_record list \<Rightarrow> method_record list" where
  "filter_loop [] min_lines max_lines cleaned = cleaned"
| "filter_loop (m # ms) min_lines max_lines cleaned =
     (let check_code = strip_java_comments_for_check (original_code m);
          code_lines = filter (\<lambda>l. py_strip l \<noteq> []) (splitlines check_code)
      in if length code_lines = 0 then filter_loop ms min_lines max_lines cleaned
         else if int (length code_lines) < min_lines \<or> int (length code_lines) > max_lines
              then filter_loop ms min_lines max_lines cleaned
         else filter_loop ms min_lines max_lines (cleaned @ [m]))"

definition filter_invalid_methods ::
  "method_record list \<Rightarrow> int \<Rightarrow> int \<Rightarrow> method_record list" where
  "filter_invalid_methods methods min_lines max_lines =
     filter_loop methods min_lines max_lines []"

text \<open>The call with the default thresholds \<open>min_lines=3\<close>, \<open>max_lines=100\<close>.\<close>

definition filter_invalid_methods_default :: "method_record list \<Rightarrow> method_record list" where
  "filter_invalid_methods_default methods = filter_invalid_methods methods 3 100"

text \<open>
  The effective line count of the filtering policy: the non-blank lines of the
  comment-stripped code.
\<close>

definition effective_line_count :: "string \<Rightarrow> int" where
  "effective_line_count code =
     int (length (filter (\<lambda>l. \<exists>c\<in>set l. \<not> is_space c)
            (splitlines (strip_java_comments_for_check code))))"

text \<open>The filtering policy: a positive effective line count within the thresholds.\<close>

definition kept :: "int \<Rightarrow> int \<Rightarrow> method_record \<Rightarrow> bool" where
  "kept min_lines max_lines m \<longleftrightarrow>
     0 < effective_line_count (original_code m) \<and>
     min_lines \<le> effective_line_count (original_code m) \<and>
     effective_line_count (original_code m) \<le> max_lines"

text \<open>A record with the given code, for the examples.\<close>

definition record_of :: "string \<Rightarrow> method_record" where
  "record_of code =
     \<lparr>method_name = ''f'', start_line = 1, end_line = 1, signature = '' void f()'',
      original_code = code, code_tokens = tokenize_code code\<rparr>"

section \<open>\<open>extract_methods_from_file\<close>\<close>

text \<open>
  What the loop reads of a \<open>javalang\<close> method declaration: its name, the line of its
  position (\<open>None\<close> when the node has no position), and its modifiers, return type and
  parameter types as they are printed into the signature.
\<close>

record method_node =
  node_name :: string
  node_line :: "int option"
  node_modifiers :: "string list"
  node_return_type :: string
  node_parameter_types :: "string list"

text \<open>\<open>sep.join(xs)\<close>\<close>

fun py_join :: "string \<Rightarrow> string list \<Rightarrow> string" where
  "py_join sep [] = []"
| "py_join sep [x] = x"
| "py_join sep (x # y # ys) = x @ sep @ py_join sep (y # ys)"

text \<open>\<open>xs[a:b]\<close>: negative bounds count from the end, and both are clipped to the list.\<close>

definition slice_bound :: "nat \<Rightarrow> int \<Rightarrow> nat" where
  "slice_bound n i = (if i < 0 then nat (max 0 (int n + i)) else min n (nat i))"

definition py_slice :: "'a list \<Rightarrow> int \<Rightarrow> int \<Rightarrow> 'a list" where
  "py_slice xs a b =
     (let lo = slice_bound (length xs) a; hi = slice_bound (length xs) b
      in take (hi - lo) (drop lo xs))"

definition make_signature :: "method_node \<Rightarrow> string" where
  "make_signature node =
     py_join '' '' (node_modifiers node) @ '' '' @ node_return_type node @ '' '' @
     node_name node @ ''('' @ py_join '', '' (node_parameter_types node) @ '')''"

text \<open>
  The loop over the method declarations. A value is false in a condition when it is
  \<open>None\<close> or \<open>0\<close>. An exception raised by \<open>_brace_matched_end\<close> is not caught.
\<close>

fun extract_loop ::
  "string list \<Rightarrow> method_node list \<Rightarrow> method_record list \<Rightarrow> error + method_record list" where
  "extract_loop lines [] results = Inr results"
| "extract_loop lines (node # nodes) results =
     (case node_line node of
        None \<Rightarrow> extract_loop lines nodes results
      | Some sl \<Rightarrow>
          if sl = 0 then extract_loop lines nodes results
          else (case brace_matched_end lines sl of
                  Inl e \<Rightarrow> Inl e
                | Inr None \<Rightarrow> extract_loop lines nodes results
                | Inr (Some el) \<Rightarrow>
                    if el = 0 then extract_loop lines nodes results
                    else (let code = py_join [newline] (py_slice lines (sl - 1) el)
                          in extract_loop lines nodes
                               (results @
                                [\<lparr>method_name = node_name node, start_line = sl,
                                  end_line = el, signature = make_signature node,
                                  original_code = code,
                                  code_tokens = tokenize_code code\<rparr>]))))"

text \<open>
  The argument is the text of the file with the declarations found by the parser, in the
  order of the traversal, or \<open>None\<close> when reading or parsing the file raised, in which
  case there are no methods.
\<close>

definition extract_methods_from_file ::
  "(string \<times> method_node list) option \<Rightarrow> error + method_record list" where
  "extract_methods_from_file parsed =
     (case parsed of
        None \<Rightarrow> Inr []
      | Some (code, nodes) \<Rightarrow> extract_loop (splitlines code) nodes [])"

text \<open>
  The record \<open>r\<close> is the one the loop builds for the declaration \<open>node\<close>.
\<close>

definition from_node :: "string list \<Rightarrow> method_node \<Rightarrow> method_record \<Rightarrow> bool" where
  "from_node lines node r \<longleftrightarrow>
     node_line node = Some (start_line r) \<and> start_line r \<noteq> 0 \<and>
     brace_matched_end lines (start_line r) = Inr (Some (end_line r)) \<and> end_line r \<noteq> 0 \<and>
     method_name r = node_name node \<and> signature r = make_signature node \<and>
     original_code r = py_join [newline] (py_slice lines (start_line r - 1) (end_line r)) \<and>
     code_tokens r = tokenize_code (original_code r)"

section \<open>Properties of \<open>_brace_matched_end\<close>\<close>

lemma py_index_nat: "i < length xs \<Longrightarrow> py_index xs (int i) = Inr (xs ! i)"
  by (simp add: py_index_def)

lemma find_open_nat:
  "i \<le> length lines \<Longrightarrow>
   find_open lines (int i) =
     Inr (int (i + length (takeWhile (\<lambda>l. \<not> has_open l) (drop i lines))))"
proof (induction "length lines - i" arbitrary: i)
  case 0
  then have "i = length lines" by simp
  then show ?case by (subst find_open.simps) simp
next
  case (Suc n)
  then have lt: "i < length lines" by simp
  then have d: "drop i lines = lines ! i # drop (Suc i) lines"
    by (simp add: Cons_nth_drop_Suc)
  show ?case
  proof (cases "has_open (lines ! i)")
    case True
    then show ?thesis using lt d
      by (subst find_open.simps) (simp add: py_index_nat has_open_def)
  next
    case False
    have "n = length lines - Suc i" using Suc.hyps(2) by simp
    moreover have "Suc i \<le> length lines" using lt by simp
    ultimately have ih: "find_open lines (int (Suc i)) =
        Inr (int (Suc i + length (takeWhile (\<lambda>l. \<not> has_open l) (drop (Suc i) lines))))"
      by (rule Suc.hyps(1))
    have e: "int i + 1 = int (Suc i)" by simp
    show ?thesis using False lt d
      by (subst find_open.simps) (simp add: py_index_nat has_open_def e ih del: of_nat_Suc)
  qed
qed

lemma depth_loop_nat:
  "j \<le> length lines \<Longrightarrow>
   depth_loop lines (int j) d =
     Inr (map_option (\<lambda>k. int (j + k) + 1) (first_zero d (drop j lines)))"
proof (induction "length lines - j" arbitrary: j d)
  case 0
  then have "j = length lines" by simp
  then show ?case by (subst depth_loop.simps) simp
next
  case (Suc n)
  then have lt: "j < length lines" by simp
  then have dr: "drop j lines = lines ! j # drop (Suc j) lines"
    by (simp add: Cons_nth_drop_Suc)
  show ?case
  proof (cases "d + net (lines ! j) = 0")
    case True
    then show ?thesis using lt dr
      by (subst depth_loop.simps) (simp add: py_index_nat net_def Let_def)
  next
    case False
    have "n = length lines - Suc j" using Suc.hyps(2) by simp
    moreover have "Suc j \<le> length lines" using lt by simp
    ultimately have ih: "depth_loop lines (int (Suc j)) (d + net (lines ! j)) =
        Inr (map_option (\<lambda>k. int (Suc j + k) + 1)
               (first_zero (d + net (lines ! j)) (drop (Suc j) lines)))"
      by (rule Suc.hyps(1))
    have e: "int j + 1 = int (Suc j)" by simp
    have n: "d + str_count (lines ! j) (CHR ''{'') - str_count (lines ! j) (CHR ''}'')
             = d + net (lines ! j)"
      by (simp add: net_def)
    have "depth_loop lines (int j) d = depth_loop lines (int (Suc j)) (d + net (lines ! j))"
      using False lt
      by (subst depth_loop.simps) (simp only: py_index_nat Let_def n e of_nat_less_iff
            if_True if_False sum.case)
    also have "\<dots> = Inr (map_option (\<lambda>k. int (j + k) + 1)
               (first_zero d (drop j lines)))"
      unfolding ih using False by (simp add: dr option.map_comp comp_def)
    finally show ?thesis .
  qed
qed

lemma first_zero_None:
  "first_zero d ls = None \<longleftrightarrow>
   (\<forall>k<length ls. d + sum_list (map net (take (Suc k) ls)) \<noteq> 0)"
proof (induction ls arbitrary: d)
  case Nil
  then show ?case by simp
next
  case (Cons l ls)
  show ?case
  proof (cases "d + net l = 0")
    case True
    then show ?thesis by auto
  next
    case False
    have "(\<forall>k<length (l # ls). d + sum_list (map net (take (Suc k) (l # ls))) \<noteq> 0) \<longleftrightarrow>
          (\<forall>k<length ls. d + net l + sum_list (map net (take (Suc k) ls)) \<noteq> 0)"
      (is "?L \<longleftrightarrow> ?R")
    proof
      assume L: ?L
      show ?R
      proof (intro allI impI)
        fix k assume "k < length ls"
        then have "Suc k < length (l # ls)" by simp
        from L[rule_format, OF this] show "d + net l + sum_list (map net (take (Suc k) ls)) \<noteq> 0"
          by (simp add: add.assoc)
      qed
    next
      assume R: ?R
      show ?L
      proof (intro allI impI)
        fix k assume k: "k < length (l # ls)"
        show "d + sum_list (map net (take (Suc k) (l # ls))) \<noteq> 0"
        proof (cases k)
          case 0
          then show ?thesis using False by simp
        next
          case (Suc k')
          then have "k' < length ls" using k by simp
          from R[rule_format, OF this] show ?thesis using Suc by (simp add: add.assoc)
        qed
      qed
    qed
    then show ?thesis using False Cons.IH[of "d + net l"] by simp
  qed
qed

lemma first_zero_Some:
  "first_zero d ls = Some k \<Longrightarrow>
   k < length ls \<and> d + sum_list (map net (take (Suc k) ls)) = 0 \<and>
   (\<forall>k'<k. d + sum_list (map net (take (Suc k') ls)) \<noteq> 0)"
proof (induction ls arbitrary: d k)
  case Nil
  then show ?case by simp
next
  case (Cons l ls)
  show ?case
  proof (cases "d + net l = 0")
    case True
    then show ?thesis using Cons.prems by auto
  next
    case False
    then obtain k0 where k0: "first_zero (d + net l) ls = Some k0" "k = Suc k0"
      using Cons.prems by auto
    from Cons.IH[OF k0(1)] have ih: "k0 < length ls"
      "d + net l + sum_list (map net (take (Suc k0) ls)) = 0"
      "\<forall>k'<k0. d + net l + sum_list (map net (take (Suc k') ls)) \<noteq> 0" by auto
    have "\<forall>k'<k. d + sum_list (map net (take (Suc k') (l # ls))) \<noteq> 0"
    proof (intro allI impI)
      fix k' assume a: "k' < k"
      show "d + sum_list (map net (take (Suc k') (l # ls))) \<noteq> 0"
      proof (cases k')
        case 0
        then show ?thesis using False by simp
      next
        case (Suc m)
        then have "m < k0" using a k0(2) by simp
        with ih(3) show ?thesis using Suc by (simp add: add.assoc)
      qed
    qed
    then show ?thesis using ih k0(2) by (simp add: add.assoc)
  qed
qed

lemma first_open_props:
  assumes a: "first_open lines i = Some p"
  shows "i \<le> p \<and> p < length lines \<and> has_open (lines ! p) \<and>
   (\<forall>j. i \<le> j \<and> j < p \<longrightarrow> \<not> has_open (lines ! j))"
proof -
  let ?P = "\<lambda>l. \<not> has_open l"
  let ?t = "takeWhile ?P (drop i lines)"
  from a have p: "p = i + length ?t" and pl: "p < length lines"
    by (simp_all add: first_open_def Let_def split: if_splits)
  have lt: "length ?t < length (drop i lines)" using p pl by simp
  have "\<not> ?P (drop i lines ! length ?t)"
    using lt by (rule nth_length_takeWhile)
  then have ho: "has_open (lines ! p)" using p pl by (simp add: add.commute)
  have "\<forall>j. i \<le> j \<and> j < p \<longrightarrow> \<not> has_open (lines ! j)"
  proof (intro allI impI)
    fix j assume j: "i \<le> j \<and> j < p"
    then have jj: "j - i < length ?t" using p by auto
    then have "?t ! (j - i) \<in> set ?t" by simp
    then have "?P (?t ! (j - i))" by (rule set_takeWhileD[THEN conjunct2])
    moreover have "?t ! (j - i) = drop i lines ! (j - i)" using jj by (rule takeWhile_nth)
    moreover have "drop i lines ! (j - i) = lines ! j" using j pl by simp
    ultimately show "\<not> has_open (lines ! j)" by simp
  qed
  then show ?thesis using p pl ho by simp
qed

lemma first_open_None:
  "first_open lines i = None \<longleftrightarrow> (\<forall>j. i \<le> j \<and> j < length lines \<longrightarrow> \<not> has_open (lines ! j))"
proof
  assume n: "first_open lines i = None"
  let ?P = "\<lambda>l. \<not> has_open l"
  let ?t = "takeWhile ?P (drop i lines)"
  from n have "length lines \<le> i + length ?t"
    by (simp add: first_open_def Let_def split: if_splits)
  moreover have "length ?t \<le> length (drop i lines)" by (rule length_takeWhile_le)
  ultimately have "length ?t = length (drop i lines)" by simp
  moreover have "length ?t + length (dropWhile ?P (drop i lines)) = length (drop i lines)"
    by (metis length_append takeWhile_dropWhile_id)
  ultimately have "length (dropWhile ?P (drop i lines)) = 0" by linarith
  then have all: "\<forall>l\<in>set (drop i lines). ?P l"
    by simp
  show "\<forall>j. i \<le> j \<and> j < length lines \<longrightarrow> \<not> has_open (lines ! j)"
  proof (intro allI impI)
    fix j assume j: "i \<le> j \<and> j < length lines"
    then have "j - i < length (drop i lines)" by auto
    then have "drop i lines ! (j - i) \<in> set (drop i lines)" by (rule nth_mem)
    moreover have "drop i lines ! (j - i) = lines ! j" using j by simp
    ultimately show "\<not> has_open (lines ! j)" using all by auto
  qed
next
  assume h: "\<forall>j. i \<le> j \<and> j < length lines \<longrightarrow> \<not> has_open (lines ! j)"
  show "first_open lines i = None"
  proof (cases "first_open lines i")
    case None
    then show ?thesis .
  next
    case (Some p)
    from first_open_props[OF Some] h show ?thesis by blast
  qed
qed

lemma brace_matched_end_nat:
  assumes "1 \<le> s"
  shows "brace_matched_end lines s =
     Inr (case first_open lines (nat (s - 1)) of
            None \<Rightarrow> None
          | Some p \<Rightarrow> map_option (\<lambda>k. int (p + k) + 1) (first_zero 0 (drop p lines)))"
proof (cases "nat (s - 1) \<le> length lines")
  case False
  then have ge: "int (length lines) \<le> s - 1" by linarith
  then have "find_open lines (s - 1) = Inr (s - 1)"
    by (subst find_open.simps) simp
  moreover have "first_open lines (nat (s - 1)) = None" using False by (simp add: first_open_def)
  ultimately show ?thesis using ge by (simp add: brace_matched_end_def)
next
  case True
  let ?i = "nat (s - 1)"
  let ?P = "\<lambda>l. \<not> has_open l"
  let ?p = "?i + length (takeWhile ?P (drop ?i lines))"
  have si: "s - 1 = int ?i" using assms by simp
  have fo: "find_open lines (s - 1) = Inr (int ?p)"
    using find_open_nat[OF True] by (simp only: si[symmetric])
  show ?thesis
  proof (cases "?p < length lines")
    case False
    then have "first_open lines ?i = None" by (simp add: first_open_def Let_def)
    moreover have "int (length lines) \<le> int ?p" using False by linarith
    ultimately show ?thesis by (simp add: brace_matched_end_def fo)
  next
    case lt: True
    then have fp: "first_open lines ?i = Some ?p" by (simp add: first_open_def Let_def)
    have "depth_loop lines (int ?p) 0 =
        Inr (map_option (\<lambda>k. int (?p + k) + 1) (first_zero 0 (drop ?p lines)))"
      using lt by (intro depth_loop_nat) simp
    moreover have "\<not> int (length lines) \<le> int ?p" using lt by linarith
    ultimately show ?thesis by (simp add: brace_matched_end_def fo fp)
  qed
qed


lemma running_depth_first_zero:
  "running_depth lines p (p + k) = sum_list (map net (take (Suc k) (drop p lines)))"
  by (simp add: running_depth_def)

lemma first_zero_never:
  assumes pl: "p \<le> length lines"
  shows "first_zero 0 (drop p lines) = None \<longleftrightarrow>
      (\<forall>j. p \<le> j \<and> j < length lines \<longrightarrow> running_depth lines p j \<noteq> 0)"
proof -
  have "(\<forall>k<length (drop p lines). 0 + sum_list (map net (take (Suc k) (drop p lines))) \<noteq> 0)
        \<longleftrightarrow> (\<forall>j. p \<le> j \<and> j < length lines \<longrightarrow> running_depth lines p j \<noteq> 0)"
    (is "?L \<longleftrightarrow> ?R")
  proof
    assume L: ?L
    show ?R
    proof (intro allI impI)
      fix j assume j: "p \<le> j \<and> j < length lines"
      then have "j - p < length (drop p lines)" by auto
      from L[rule_format, OF this] have "running_depth lines p (p + (j - p)) \<noteq> 0"
        by (simp add: running_depth_first_zero)
      then show "running_depth lines p j \<noteq> 0" using j by simp
    qed
  next
    assume R: ?R
    show ?L
    proof (intro allI impI)
      fix k assume "k < length (drop p lines)"
      then have "p \<le> p + k \<and> p + k < length lines" by auto
      from R[rule_format, OF this]
      show "0 + sum_list (map net (take (Suc k) (drop p lines))) \<noteq> 0"
        by (simp add: running_depth_first_zero)
    qed
  qed
  then show ?thesis by (simp only: first_zero_None)
qed

section \<open>Claims about \<open>_brace_matched_end\<close>\<close>

text \<open>
  Claim C10. The braces of the first line with an opening brace are counted themselves:
  for a start line of at least 1, when the first line at or after the start line that
  contains \<open>{\<close> (0-based index \<open>p\<close>) has as many \<open>{\<close> as \<open>}\<close>, \<open>_brace_matched_end\<close>
  returns that line's own 1-based number \<open>p + 1\<close>.
\<close>

theorem brace_matched_end_same_line:
  assumes s: "1 \<le> sl"
    and fo: "first_open lines (nat (sl - 1)) = Some p"
    and eq: "str_count (lines ! p) (CHR ''{'') = str_count (lines ! p) (CHR ''}'')"
  shows "brace_matched_end lines sl = Inr (Some (int p + 1))"
proof -
  from first_open_props[OF fo] have pl: "p < length lines" by simp
  then have dr: "drop p lines = lines ! p # drop (Suc p) lines"
    by (simp add: Cons_nth_drop_Suc)
  have "net (lines ! p) = 0" using eq by (simp add: net_def)
  then have "first_zero 0 (drop p lines) = Some 0" by (simp add: dr)
  then show ?thesis using brace_matched_end_nat[OF s, of lines] fo by simp
qed

theorem brace_matched_end_same_line_witness:
  "(1::int) \<le> 1 \<and> first_open [''void f() { return; }'', ''}''] (nat (1 - 1)) = Some 0 \<and>
   brace_matched_end [''void f() { return; }'', ''}''] 1 = Inr (Some 1)"
proof -
  have h: "(1::int) \<le> 1" by simp
  have f: "first_open [''void f() { return; }'', ''}''] (nat (1 - 1)) = Some 0"
    by code_simp
  have c: "str_count ([''void f() { return; }'', ''}''] ! 0) (CHR ''{'') =
           str_count ([''void f() { return; }'', ''}''] ! 0) (CHR ''}'')"
    by code_simp
  from brace_matched_end_same_line[OF h f c] h f show ?thesis by simp
qed

text \<open>
  Claim C4. For a start line of at least 1, \<open>_brace_matched_end\<close> never raises, and it
  returns \<open>None\<close> exactly when no line at or after the start line contains \<open>{\<close> (as when
  the start line is beyond the last line), or the running depth counted from the first
  line with \<open>{\<close> is not zero after any line up to the end of the file.
\<close>

theorem brace_matched_end_absent:
  assumes s: "1 \<le> sl"
  shows "(\<exists>r. brace_matched_end lines sl = Inr r) \<and>
    (brace_matched_end lines sl = Inr None \<longleftrightarrow>
      (\<forall>j. nat (sl - 1) \<le> j \<and> j < length lines \<longrightarrow> \<not> has_open (lines ! j)) \<or>
      (\<exists>p. first_open lines (nat (sl - 1)) = Some p \<and>
           (\<forall>j. p \<le> j \<and> j < length lines \<longrightarrow> running_depth lines p j \<noteq> 0)))"
proof -
  let ?i = "nat (sl - 1)"
  note bme = brace_matched_end_nat[OF s, of lines]
  have ex: "\<exists>r. brace_matched_end lines sl = Inr r" using bme by simp
  show ?thesis
  proof (cases "first_open lines ?i")
    case None
    then show ?thesis using bme by (simp add: first_open_None[symmetric])
  next
    case (Some p)
    from first_open_props[OF Some] have pl: "p \<le> length lines" and ho: "has_open (lines ! p)"
      and ip: "?i \<le> p \<and> p < length lines" by simp_all
    have not_all: "\<not> (\<forall>j. ?i \<le> j \<and> j < length lines \<longrightarrow> \<not> has_open (lines ! j))"
      using ho ip by blast
    have "brace_matched_end lines sl = Inr None \<longleftrightarrow>
        first_zero 0 (drop p lines) = None"
      using bme Some by simp
    then have iff: "brace_matched_end lines sl = Inr None \<longleftrightarrow>
        (\<forall>j. p \<le> j \<and> j < length lines \<longrightarrow> running_depth lines p j \<noteq> 0)"
      using first_zero_never[OF pl] by simp
    show ?thesis
      apply (rule conjI[OF ex])
      apply (simp only: iff Some option.inject)
      using not_all apply blast
      done
  qed
qed

theorem brace_matched_end_absent_witness:
  "(1::int) \<le> 1 \<and> brace_matched_end [''void f() {'', ''  x;''] 1 = Inr None \<and>
   ((\<forall>j. nat (1 - 1) \<le> j \<and> j < length [''void f() {'', ''  x;''] \<longrightarrow>
         \<not> has_open ([''void f() {'', ''  x;''] ! j)) \<or>
    (\<exists>p. first_open [''void f() {'', ''  x;''] (nat (1 - 1)) = Some p \<and>
         (\<forall>j. p \<le> j \<and> j < length [''void f() {'', ''  x;''] \<longrightarrow>
            running_depth [''void f() {'', ''  x;''] p j \<noteq> 0)))"
proof -
  have h: "(1::int) \<le> 1" by simp
  have v: "brace_matched_end [''void f() {'', ''  x;''] 1 = Inr None" by code_simp
  from brace_matched_end_absent[OF h, of "[''void f() {'', ''  x;'']"] v h
  show ?thesis by blast
qed

section \<open>Properties of the extraction loop\<close>

lemma extract_loop_records:
  "extract_loop lines nodes acc = Inr rs \<Longrightarrow> r \<in> set rs \<Longrightarrow>
   r \<in> set acc \<or> (\<exists>node\<in>set nodes. from_node lines node r)"
proof (induction nodes arbitrary: acc)
  case Nil
  then show ?case by simp
next
  case (Cons node nodes)
  show ?case
  proof (cases "node_line node")
    case None
    then have "extract_loop lines nodes acc = Inr rs" using Cons.prems(1) by simp
    from Cons.IH[OF this Cons.prems(2)] show ?thesis by auto
  next
    case (Some sl)
    show ?thesis
    proof (cases "sl = 0")
      case True
      then have "extract_loop lines nodes acc = Inr rs" using Cons.prems(1) Some by simp
      from Cons.IH[OF this Cons.prems(2)] show ?thesis by auto
    next
      case False
      show ?thesis
      proof (cases "brace_matched_end lines sl")
        case (Inl e)
        then show ?thesis using Cons.prems(1) Some False by simp
      next
        case (Inr res)
        show ?thesis
        proof (cases res)
          case None
          then have "extract_loop lines nodes acc = Inr rs"
            using Cons.prems(1) Some False Inr by simp
          from Cons.IH[OF this Cons.prems(2)] show ?thesis by auto
        next
          case (Some el)
          note el = Some
          show ?thesis
          proof (cases "el = 0")
            case True
            then have "extract_loop lines nodes acc = Inr rs"
              using Cons.prems(1) \<open>node_line node = Some sl\<close> False Inr el by simp
            from Cons.IH[OF this Cons.prems(2)] show ?thesis by auto
          next
            case nz: False
            let ?code = "py_join [newline] (py_slice lines (sl - 1) el)"
            let ?r = "\<lparr>method_name = node_name node, start_line = sl, end_line = el,
                       signature = make_signature node, original_code = ?code,
                       code_tokens = tokenize_code ?code\<rparr>"
            have "extract_loop lines nodes (acc @ [?r]) = Inr rs"
              using Cons.prems(1) \<open>node_line node = Some sl\<close> False Inr el nz
              by (simp add: Let_def)
            from Cons.IH[OF this Cons.prems(2)]
            have "r \<in> set acc \<or> r = ?r \<or> (\<exists>n\<in>set nodes. from_node lines n r)" by auto
            moreover have "from_node lines node ?r"
              using \<open>node_line node = Some sl\<close> False Inr el nz by (simp add: from_node_def)
            ultimately show ?thesis by auto
          qed
        qed
      qed
    qed
  qed
qed

lemma extract_loop_returns:
  "\<forall>n\<in>set nodes. \<forall>p. node_line n = Some p \<longrightarrow> 1 \<le> p \<Longrightarrow>
   \<exists>rs. extract_loop lines nodes acc = Inr rs"
proof (induction nodes arbitrary: acc)
  case Nil
  then show ?case by simp
next
  case (Cons node nodes)
  then have ih: "\<And>acc. \<exists>rs. extract_loop lines nodes acc = Inr rs" by simp
  show ?case
  proof (cases "node_line node")
    case None
    then show ?thesis using ih by simp
  next
    case (Some sl)
    then have "1 \<le> sl" using Cons.prems by simp
    then obtain res where "brace_matched_end lines sl = Inr res"
      using brace_matched_end_nat by blast
    then show ?thesis using Some ih by (cases res) (simp_all add: Let_def)
  qed
qed

lemma py_slice_nth:
  assumes "1 \<le> a" "a \<le> b" "b \<le> int (length xs)"
  shows "py_slice xs (a - 1) b = map (\<lambda>i. xs ! i) [nat (a - 1)..<nat b]"
proof -
  have lo: "slice_bound (length xs) (a - 1) = nat (a - 1)"
    using assms by (simp add: slice_bound_def)
  have hi: "slice_bound (length xs) b = nat b"
    using assms by (simp add: slice_bound_def)
  have "take (nat b - nat (a - 1)) (drop (nat (a - 1)) xs) = map (\<lambda>i. xs ! i) [nat (a - 1)..<nat b]"
  proof (rule nth_equalityI)
    show "length (take (nat b - nat (a - 1)) (drop (nat (a - 1)) xs)) =
          length (map (\<lambda>i. xs ! i) [nat (a - 1)..<nat b])"
      using assms by simp
  next
    fix i assume "i < length (take (nat b - nat (a - 1)) (drop (nat (a - 1)) xs))"
    then have i: "i < nat b - nat (a - 1)" by simp
    then show "take (nat b - nat (a - 1)) (drop (nat (a - 1)) xs) ! i =
               map (\<lambda>i. xs ! i) [nat (a - 1)..<nat b] ! i"
      using assms by simp
  qed
  then show ?thesis by (simp add: py_slice_def lo hi Let_def)
qed

lemma brace_matched_end_range:
  assumes s: "1 \<le> sl"
    and r: "brace_matched_end lines sl = Inr (Some e)"
  shows "sl \<le> e \<and> e \<le> int (length lines)"
proof -
  from r brace_matched_end_nat[OF s, of lines]
  obtain p k where fo: "first_open lines (nat (sl - 1)) = Some p"
    and fz: "first_zero 0 (drop p lines) = Some k" and e: "e = int (p + k) + 1"
    by (auto split: option.splits)
  from first_open_props[OF fo] have "nat (sl - 1) \<le> p" by simp
  moreover from first_zero_Some[OF fz] have "k < length lines - p" by simp
  ultimately show ?thesis using e s by linarith
qed

text \<open>
  Claim C7. For a start line of at least 1, an end line \<open>e\<close> returned by
  \<open>_brace_matched_end\<close> satisfies \<open>start_line \<le> e \<le> len(lines)\<close>. Hence, when the
  parser's line numbers are at least 1, the extraction returns and every record it
  produces has \<open>1 \<le> start_line \<le> end_line\<close>.
\<close>

theorem brace_matched_end_bounds:
  "(1 \<le> sl \<and> brace_matched_end lines sl = Inr (Some e) \<longrightarrow>
      sl \<le> e \<and> e \<le> int (length lines)) \<and>
   ((\<forall>n\<in>set nodes. \<forall>p. node_line n = Some p \<longrightarrow> 1 \<le> p) \<longrightarrow>
      (\<exists>rs. extract_methods_from_file (Some (code, nodes)) = Inr rs \<and>
            (\<forall>r\<in>set rs. 1 \<le> start_line r \<and> start_line r \<le> end_line r)))"
proof (intro conjI impI)
  assume "1 \<le> sl \<and> brace_matched_end lines sl = Inr (Some e)"
  then show "sl \<le> e" and "e \<le> int (length lines)"
    using brace_matched_end_range[of sl lines e] by simp_all
next
  assume pos: "\<forall>n\<in>set nodes. \<forall>p. node_line n = Some p \<longrightarrow> 1 \<le> p"
  from extract_loop_returns[OF pos, of "splitlines code" "[]"]
  obtain rs where rs: "extract_loop (splitlines code) nodes [] = Inr rs" by blast
  have "\<forall>r\<in>set rs. 1 \<le> start_line r \<and> start_line r \<le> end_line r"
  proof
    fix r assume "r \<in> set rs"
    from extract_loop_records[OF rs this]
    obtain node where n: "node \<in> set nodes" and f: "from_node (splitlines code) node r"
      by auto
    from f have l: "node_line node = Some (start_line r)"
      and b: "brace_matched_end (splitlines code) (start_line r) = Inr (Some (end_line r))"
      by (simp_all add: from_node_def)
    from pos n l have s: "1 \<le> start_line r" by blast
    from brace_matched_end_range[OF s b] s
    show "1 \<le> start_line r \<and> start_line r \<le> end_line r" by simp
  qed
  then show "\<exists>rs. extract_methods_from_file (Some (code, nodes)) = Inr rs \<and>
            (\<forall>r\<in>set rs. 1 \<le> start_line r \<and> start_line r \<le> end_line r)"
    using rs by (simp add: extract_methods_from_file_def)
qed

theorem brace_matched_end_bounds_witness:
  "brace_matched_end [''void f() {'', ''  return;'', ''}''] 1 = Inr (Some 3) \<and>
   (1::int) \<le> 3 \<and> (3::int) \<le> int (length [''void f() {'', ''  return;'', ''}'']) \<and>
   (\<exists>rs. extract_methods_from_file
           (Some (''int x;'' @ [newline] @ ''void f() {'' @ [newline] @ ''}'',
                  [\<lparr>node_name = ''f'', node_line = Some 2, node_modifiers = [],
                    node_return_type = ''void'', node_parameter_types = []\<rparr>])) = Inr rs \<and>
         (\<forall>r\<in>set rs. 1 \<le> start_line r \<and> start_line r \<le> end_line r))"
proof -
  have v: "brace_matched_end [''void f() {'', ''  return;'', ''}''] 1 = Inr (Some 3)"
    by code_simp
  have p: "\<forall>n\<in>set [\<lparr>node_name = ''f'', node_line = Some 2, node_modifiers = [],
                    node_return_type = ''void'', node_parameter_types = []\<rparr>].
             \<forall>p. node_line n = Some p \<longrightarrow> 1 \<le> p"
    by simp
  from brace_matched_end_bounds[of 1 "[''void f() {'', ''  return;'', ''}'']" 3
        "[\<lparr>node_name = ''f'', node_line = Some 2, node_modifiers = [],
           node_return_type = ''void'', node_parameter_types = []\<rparr>]"
        "''int x;'' @ [newline] @ ''void f() {'' @ [newline] @ ''}''"] v p
  show ?thesis by simp
qed

text \<open>
  Claim C6. Every record produced by the extraction has as \<open>original_code\<close> the
  newline-join of the slice \<open>lines[start_line-1:end_line]\<close> and as \<open>code_tokens\<close> the
  tokens of that text. When the parser's line numbers are at least 1 the slice is not
  clipped: it is the lines with 0-based indices \<open>start_line-1\<close> to \<open>end_line-1\<close>
  inclusive, all of them lines of the file.
\<close>

theorem extracted_original_code:
  assumes ex: "extract_methods_from_file (Some (code, nodes)) = Inr rs"
    and r: "r \<in> set rs"
  shows "original_code r =
           py_join [newline] (py_slice (splitlines code) (start_line r - 1) (end_line r)) \<and>
         code_tokens r = tokenize_code (original_code r) \<and>
         ((\<forall>n\<in>set nodes. \<forall>p. node_line n = Some p \<longrightarrow> 1 \<le> p) \<longrightarrow>
            end_line r \<le> int (length (splitlines code)) \<and>
            original_code r =
              py_join [newline]
                (map (\<lambda>i. splitlines code ! i) [nat (start_line r - 1)..<nat (end_line r)]))"
proof -
  let ?lines = "splitlines code"
  from ex have "extract_loop ?lines nodes [] = Inr rs"
    by (simp add: extract_methods_from_file_def)
  from extract_loop_records[OF this r]
  obtain node where n: "node \<in> set nodes" and f: "from_node ?lines node r" by auto
  from f have l: "node_line node = Some (start_line r)"
    and b: "brace_matched_end ?lines (start_line r) = Inr (Some (end_line r))"
    and oc: "original_code r = py_join [newline] (py_slice ?lines (start_line r - 1) (end_line r))"
    and ct: "code_tokens r = tokenize_code (original_code r)"
    by (simp_all add: from_node_def)
  have "end_line r \<le> int (length ?lines) \<and>
        original_code r =
          py_join [newline] (map (\<lambda>i. ?lines ! i) [nat (start_line r - 1)..<nat (end_line r)])"
    if pos: "\<forall>n\<in>set nodes. \<forall>p. node_line n = Some p \<longrightarrow> 1 \<le> p"
  proof -
    from pos n l have s: "1 \<le> start_line r" by blast
    from brace_matched_end_range[OF s b]
    have rg: "start_line r \<le> end_line r" "end_line r \<le> int (length ?lines)" by simp_all
    from py_slice_nth[OF s rg] oc rg(2) show ?thesis by simp
  qed
  then show ?thesis using oc ct by blast
qed

theorem extracted_original_code_witness:
  "extract_methods_from_file
     (Some (''int x;'' @ [newline] @ ''void f() {'' @ [newline] @ ''}'',
            [\<lparr>node_name = ''f'', node_line = Some 2, node_modifiers = [],
              node_return_type = ''void'', node_parameter_types = []\<rparr>]))
   = Inr [\<lparr>method_name = ''f'', start_line = 2, end_line = 3, signature = '' void f()'',
           original_code = ''void f() {'' @ [newline] @ ''}'',
           code_tokens = [''void'', ''f'', ''('', '')'', ''{'', ''}'']\<rparr>] \<and>
   ''void f() {'' @ [newline] @ ''}'' =
     py_join [newline]
       (map (\<lambda>i. splitlines (''int x;'' @ [newline] @ ''void f() {'' @ [newline] @ ''}'') ! i)
            [nat (2 - 1)..<nat 3]) \<and>
   [''void'', ''f'', ''('', '')'', ''{'', ''}''] = tokenize_code (''void f() {'' @ [newline] @ ''}'')"
proof -
  let ?code = "''int x;'' @ [newline] @ ''void f() {'' @ [newline] @ ''}''"
  let ?nodes = "[\<lparr>node_name = ''f'', node_line = Some 2, node_modifiers = [],
              node_return_type = ''void'', node_parameter_types = []\<rparr>]"
  let ?r = "\<lparr>method_name = ''f'', start_line = 2, end_line = 3, signature = '' void f()'',
           original_code = ''void f() {'' @ [newline] @ ''}'',
           code_tokens = [''void'', ''f'', ''('', '')'', ''{'', ''}'']\<rparr>"
  have e: "extract_methods_from_file (Some (?code, ?nodes)) = Inr [?r]"
    by code_simp
  have m: "?r \<in> set [?r]" by simp
  have p: "\<forall>n\<in>set ?nodes. \<forall>p. node_line n = Some p \<longrightarrow> 1 \<le> p" by simp
  from extracted_original_code[OF e m] p e show ?thesis by simp
qed


section \<open>Properties of \<open>tokenize_code\<close>\<close>

lemma code_point_simps:
  "code_point (CHR ''_'') = 95" "code_point dquote = 34" "code_point squote = 39"
  "code_point (CHR ''='') = 61" "code_point (CHR ''!'') = 33" "code_point (CHR ''<'') = 60"
  "code_point (CHR ''>'') = 62" "code_point (CHR ''&'') = 38" "code_point (CHR ''|'') = 124"
  by (simp_all add: code_point_def)

lemma space_not_ident_char: "is_space c \<Longrightarrow> \<not> is_ident_char c"
  by (auto simp: is_space_def is_ident_char_def code_point_simps)

lemma ident_start_ident_char: "is_ident_start c \<Longrightarrow> is_ident_char c"
  by (auto simp: is_ident_start_def is_ident_char_def)

lemma digit_ident_char: "is_digit c \<Longrightarrow> is_ident_char c"
  by (auto simp: is_digit_def is_ident_char_def)

lemma space_not_quote: "is_space c \<Longrightarrow> c \<noteq> dquote \<and> c \<noteq> squote"
  by (auto simp: is_space_def code_point_simps)

lemma space_not_operator_char:
  "is_space c \<Longrightarrow> c \<notin> {CHR ''='', CHR ''!'', CHR ''<'', CHR ''>'', CHR ''&'', CHR ''|''}"
  by (auto simp: is_space_def code_point_simps)

lemma match_operator_chars:
  "match_operator s = Some t \<Longrightarrow>
   set t \<subseteq> {CHR ''='', CHR ''!'', CHR ''<'', CHR ''>'', CHR ''&'', CHR ''|''} \<and>
   t \<noteq> [] \<and> hd t = hd s"
  by (induction s rule: match_operator.induct) (auto split: if_splits)

lemma match_token_space: "is_space c \<Longrightarrow> match_token (c # cs) = None"
proof -
  assume sp: "is_space c"
  have 1: "match_identifier (c # cs) = None"
    using sp space_not_ident_char ident_start_ident_char by auto
  have 2: "match_number (c # cs) = None"
    using sp space_not_ident_char digit_ident_char by auto
  have 3: "match_quoted dquote (c # cs) = None" "match_quoted squote (c # cs) = None"
    using space_not_quote[OF sp] by simp_all
  have 4: "match_operator (c # cs) = None"
  proof (cases "match_operator (c # cs)")
    case None then show ?thesis .
  next
    case (Some t)
    from match_operator_chars[OF Some] have "c \<in> set t"
      by (cases t) auto
    with match_operator_chars[OF Some] space_not_operator_char[OF sp] show ?thesis by blast
  qed
  have 5: "match_other (c # cs) = None" using sp by simp
  show ?thesis by (simp only: match_token_def 1 2 3 4 5 or_else_def option.case)
qed

lemma match_token_nonspace: "\<not> is_space c \<Longrightarrow> \<exists>t. match_token (c # cs) = Some t"
proof -
  assume "\<not> is_space c"
  then have "match_other (c # cs) = Some [c]" by simp
  then show ?thesis
    by (simp add: match_token_def or_else_def split: option.split)
qed

lemma match_token_shape:
  assumes "match_token s = Some t"
  shows "t \<noteq> [] \<and> \<not> is_space (hd t) \<and> ((\<exists>c\<in>set t. is_space c) \<longrightarrow> quoted t)"
proof -
  from assms consider
      (ident) "match_identifier s = Some t"
    | (num) "match_number s = Some t"
    | (dq) "match_quoted dquote s = Some t"
    | (sq) "match_quoted squote s = Some t"
    | (op) "match_operator s = Some t"
    | (other) "match_other s = Some t"
    unfolding match_token_def by (blast dest: or_else_Some)
  then show ?thesis
  proof cases
    case ident
    then obtain c cs where "s = c # cs" "is_ident_start c" "t = c # takeWhile is_ident_char cs"
      by (cases s) (auto split: if_splits)
    then have "\<forall>x\<in>set t. is_ident_char x"
      by (auto dest: set_takeWhileD ident_start_ident_char)
    then have "\<forall>x\<in>set t. \<not> is_space x" using space_not_ident_char by blast
    then show ?thesis using \<open>t = c # takeWhile is_ident_char cs\<close> by auto
  next
    case num
    then obtain c cs where "s = c # cs" "is_digit c" "t = c # takeWhile is_digit cs"
      by (cases s) (auto split: if_splits)
    then have "\<forall>x\<in>set t. is_ident_char x"
      by (auto dest: set_takeWhileD digit_ident_char)
    then have "\<forall>x\<in>set t. \<not> is_space x" using space_not_ident_char by blast
    then show ?thesis using \<open>t = c # takeWhile is_digit cs\<close> by auto
  next
    case dq
    then obtain cs where "t = dquote # takeWhile (\<lambda>x. x \<noteq> dquote) cs @ [dquote]"
      by (cases s) (auto split: if_splits)
    then show ?thesis using space_not_quote by (auto simp: quoted_def)
  next
    case sq
    then obtain cs where "t = squote # takeWhile (\<lambda>x. x \<noteq> squote) cs @ [squote]"
      by (cases s) (auto split: if_splits)
    then show ?thesis using space_not_quote by (auto simp: quoted_def)
  next
    case op
    from match_operator_chars[OF op] space_not_operator_char
    have "t \<noteq> []" and "\<forall>x\<in>set t. \<not> is_space x" by blast+
    then show ?thesis by (cases t) auto
  next
    case other
    then show ?thesis by (cases s) (auto split: if_splits)
  qed
qed

lemma findall_tokens_matched:
  "t \<in> set (findall_tokens s) \<Longrightarrow> \<exists>s'. match_token s' = Some t"
proof (induction s rule: findall_tokens.induct)
  case 1
  then show ?case by simp
next
  case (2 c cs)
  show ?case
  proof (cases "match_token (c # cs)")
    case None
    then show ?thesis using 2 by simp
  next
    case (Some u)
    then have "t = u \<or> t \<in> set (findall_tokens (drop (length u) (c # cs)))"
      using "2.prems" by simp
    then show ?thesis using Some "2.IH"(2)[OF Some] by blast
  qed
qed

lemma findall_tokens_empty: "findall_tokens s = [] \<longleftrightarrow> (\<forall>c\<in>set s. is_space c)"
proof (induction s rule: findall_tokens.induct)
  case 1
  then show ?case by simp
next
  case (2 c cs)
  show ?case
  proof (cases "is_space c")
    case True
    then show ?thesis using 2 match_token_space[OF True, of cs] by simp
  next
    case False
    then obtain t where "match_token (c # cs) = Some t"
      using match_token_nonspace by blast
    then show ?thesis using False by simp
  qed
qed

text \<open>
  Claim C3. The tokens of the text
  \<^verbatim>\<open>foo123 42 "a b" 'c' == != <= >= && || @\<close>
  are, in order, \<open>foo123\<close>, \<open>42\<close>, the two quoted strings with their quotes, the six
  two-character operators and \<open>@\<close>.
\<close>

theorem tokenize_code_example:
  "tokenize_code (''foo123 42 '' @ [dquote] @ ''a b'' @ [dquote] @ '' '' @ [squote] @ ''c'' @
                  [squote] @ '' == != <= >= && || @'')
   = [''foo123'', ''42'', [dquote] @ ''a b'' @ [dquote], [squote] @ ''c'' @ [squote],
      ''=='', ''!='', ''<='', ''>='', ''&&'', ''||'', ''@'']"
  by code_simp

text \<open>
  Claim C8. \<open>tokenize_code\<close> is defined on every text (the scan terminates, and at a
  character that is not whitespace some alternative matches, at the latest the
  single-character one); the empty text has no tokens; no token is empty or starts with
  whitespace, and a token that contains whitespace is a quoted string.
\<close>

theorem tokenize_code_total:
  "tokenize_code [] = [] \<and>
   (\<forall>c cs. \<not> is_space c \<longrightarrow> (\<exists>t. match_token (c # cs) = Some t)) \<and>
   (\<forall>t\<in>set (tokenize_code s).
      t \<noteq> [] \<and> \<not> is_space (hd t) \<and> ((\<exists>c\<in>set t. is_space c) \<longrightarrow> quoted t))"
  unfolding tokenize_code_def
  using match_token_nonspace findall_tokens_matched match_token_shape
  by (intro conjI ballI allI impI) (simp, blast+)

theorem tokenize_code_total_witness:
  "tokenize_code (''x = '' @ [dquote] @ ''a b'' @ [dquote]) =
     [''x'', ''='', [dquote] @ ''a b'' @ [dquote]] \<and>
   (\<exists>c\<in>set ([dquote] @ ''a b'' @ [dquote]). is_space c) \<and>
   quoted ([dquote] @ ''a b'' @ [dquote]) \<and>
   (\<exists>t. match_token ''@ x'' = Some t)"
proof -
  let ?s = "''x = '' @ [dquote] @ ''a b'' @ [dquote]"
  let ?t = "[dquote] @ ''a b'' @ [dquote]"
  have v: "tokenize_code ?s = [''x'', ''='', ?t]" by code_simp
  have sp: "is_space (CHR '' '')" by (simp add: is_space_def code_point_def)
  have ns: "\<not> is_space (CHR ''@'')" by (simp add: is_space_def code_point_def)
  have ex: "\<exists>c\<in>set ?t. is_space c" using sp by simp
  have mem: "?t \<in> set (tokenize_code ?s)" unfolding v by simp
  from tokenize_code_total[of ?s] mem ex have "quoted ?t" by blast
  moreover from tokenize_code_total[of ?s] ns have "\<exists>t. match_token ''@ x'' = Some t" by blast
  ultimately show ?thesis using v ex by blast
qed

text \<open>
  Claim C9. \<open>tokenize_code\<close> returns no token exactly when every character of the text
  is whitespace.
\<close>

theorem tokenize_code_empty_iff:
  "tokenize_code s = [] \<longleftrightarrow> (\<forall>c\<in>set s. is_space c)"
  unfolding tokenize_code_def by (rule findall_tokens_empty)

theorem tokenize_code_empty_iff_witness:
  "tokenize_code [CHR '' '', CHR 0x09, newline, carriage_return] = [] \<and>
   \<not> (\<forall>c\<in>set '' ; ''. is_space c) \<and> tokenize_code '' ; '' \<noteq> []"
proof -
  have a: "\<forall>c\<in>set ([CHR '' '', CHR 0x09, newline, carriage_return]). is_space c"
    by (simp add: is_space_def code_point_def)
  have b: "\<not> (\<forall>c\<in>set '' ; ''. is_space c)"
    by (simp add: is_space_def code_point_def)
  from tokenize_code_empty_iff[of "[CHR '' '', CHR 0x09, newline, carriage_return]"]
       tokenize_code_empty_iff[of "'' ; ''"] a b
  show ?thesis by blast
qed


section \<open>Properties of \<open>_strip_java_comments_for_check\<close>\<close>

lemma match_comment_head: "match_comment s = Some n \<Longrightarrow> \<exists>r. s = CHR ''/'' # r"
  by (induction s rule: match_comment.induct) (auto split: if_splits)

lemma match_comment_not_slash: "c \<noteq> CHR ''/'' \<Longrightarrow> match_comment (c # cs) = None"
  by (cases cs) simp_all

lemma sub_comments_keep: "c \<noteq> CHR ''/'' \<Longrightarrow> sub_comments (c # cs) = c # sub_comments cs"
  by (simp add: match_comment_not_slash)

lemma sub_comments_head:
  "sub_comments s = CHR ''/'' # r \<Longrightarrow> \<exists>r'. s = CHR ''/'' # r'"
proof (cases s)
  case Nil
  assume "sub_comments s = CHR ''/'' # r"
  then show ?thesis using Nil by simp
next
  case (Cons c cs)
  assume a: "sub_comments s = CHR ''/'' # r"
  show ?thesis
  proof (cases "c = CHR ''/''")
    case True
    then show ?thesis using Cons by simp
  next
    case False
    then show ?thesis using a Cons by (simp add: match_comment_not_slash)
  qed
qed

lemma find_close_drop: "find_close s = None \<Longrightarrow> find_close (drop n s) = None"
proof (induction n arbitrary: s)
  case 0
  then show ?case by simp
next
  case (Suc n)
  show ?case
  proof (cases s)
    case Nil
    then show ?thesis by simp
  next
    case (Cons c cs)
    have "find_close cs = None"
    proof (cases cs)
      case Nil
      then show ?thesis by simp
    next
      case (Cons d ds)
      then show ?thesis using Suc.prems \<open>s = c # cs\<close> by (simp split: if_splits)
    qed
    from Suc.IH[OF this] show ?thesis using Cons by simp
  qed
qed

lemma find_close_Cons:
  "find_close cs = None \<Longrightarrow> \<not> (c = CHR ''*'' \<and> (\<exists>r. cs = CHR ''/'' # r)) \<Longrightarrow>
   find_close (c # cs) = None"
  by (cases cs) auto

lemma find_close_tail: "find_close (c # cs) = None \<Longrightarrow> find_close cs = None"
  using find_close_drop[of "c # cs" 1] by simp

lemma find_close_sub_comments:
  "find_close s = None \<Longrightarrow> find_close (sub_comments s) = None"
proof (induction s rule: sub_comments.induct)
  case 1
  then show ?case by simp
next
  case (2 c cs)
  show ?case
  proof (cases "match_comment (c # cs)")
    case None
    have tl: "find_close cs = None" using "2.prems" by (rule find_close_tail)
    have ih: "find_close (sub_comments cs) = None" using "2.IH"(1)[OF None tl] .
    have "\<not> (c = CHR ''*'' \<and> (\<exists>r. sub_comments cs = CHR ''/'' # r))"
    proof
      assume h: "c = CHR ''*'' \<and> (\<exists>r. sub_comments cs = CHR ''/'' # r)"
      then obtain r' where "cs = CHR ''/'' # r'" using sub_comments_head by blast
      then show False using "2.prems" h by simp
    qed
    from find_close_Cons[OF ih this] show ?thesis using None by simp
  next
    case (Some n)
    have "find_close (drop n (c # cs)) = None" using "2.prems" by (rule find_close_drop)
    from "2.IH"(2)[OF Some this] show ?thesis using Some by simp
  qed
qed

lemma match_comment_Cons_sub:
  assumes none: "match_comment (c # cs) = None"
  shows "match_comment (c # sub_comments cs) = None"
proof (cases "c = CHR ''/''")
  case False
  then show ?thesis by (rule match_comment_not_slash)
next
  case True
  show ?thesis
  proof (cases cs)
    case Nil
    then show ?thesis by simp
  next
    case (Cons d ds)
    have d: "d \<noteq> CHR ''/''" using none True Cons by (auto split: if_splits)
    then have sub: "sub_comments cs = d # sub_comments ds"
      using Cons by (simp add: match_comment_not_slash)
    show ?thesis
    proof (cases "d = CHR ''*''")
      case False
      then show ?thesis using sub d by simp
    next
      case star: True
      have "find_close ds = None" using none True Cons star by simp
      then have "find_close (sub_comments ds) = None" by (rule find_close_sub_comments)
      then show ?thesis using sub star True by simp
    qed
  qed
qed

lemma sub_comments_clean: "match_comment (drop n (sub_comments s)) = None"
proof (induction s arbitrary: n rule: sub_comments.induct)
  case 1
  then show ?case by simp
next
  case (2 c cs)
  show ?case
  proof (cases "match_comment (c # cs)")
    case None
    show ?thesis
    proof (cases n)
      case 0
      then show ?thesis using None match_comment_Cons_sub[OF None] by simp
    next
      case (Suc k)
      then show ?thesis using None "2.IH"(1)[OF None, of k] by simp
    qed
  next
    case (Some m)
    then show ?thesis using "2.IH"(2)[OF Some, of n] by simp
  qed
qed

lemma sub_comments_fixed:
  "(\<And>n. match_comment (drop n s) = None) \<Longrightarrow> sub_comments s = s"
proof (induction s)
  case Nil
  then show ?case by simp
next
  case (Cons c cs)
  have 0: "match_comment (c # cs) = None" using Cons.prems[of 0] by simp
  have "\<And>n. match_comment (drop n cs) = None" using Cons.prems[of "Suc n" for n] by simp
  from Cons.IH[OF this] show ?case using 0 by simp
qed

text \<open>
  Claim C5. Comment stripping is idempotent: stripping the stripped text changes
  nothing, for every text.
\<close>

theorem strip_java_comments_idempotent:
  "strip_java_comments_for_check (strip_java_comments_for_check src) =
   strip_java_comments_for_check src"
  unfolding strip_java_comments_for_check_def
  by (rule sub_comments_fixed) (rule sub_comments_clean)


section \<open>Properties of \<open>filter_invalid_methods\<close>\<close>

lemma py_strip_empty: "py_strip l = [] \<longleftrightarrow> (\<forall>c\<in>set l. is_space c)"
proof -
  have "py_strip l = [] \<longleftrightarrow> (\<forall>c\<in>set (dropWhile is_space l). is_space c)"
    by (simp add: py_strip_def dropWhile_eq_Nil_conv)
  also have "\<dots> \<longleftrightarrow> dropWhile is_space l = []"
  proof
    assume a: "\<forall>c\<in>set (dropWhile is_space l). is_space c"
    show "dropWhile is_space l = []"
    proof (rule ccontr)
      assume ne: "dropWhile is_space l \<noteq> []"
      then have "\<not> is_space (hd (dropWhile is_space l))" by (rule hd_dropWhile)
      moreover have "hd (dropWhile is_space l) \<in> set (dropWhile is_space l)"
        using ne by simp
      ultimately show False using a by blast
    qed
  next
    assume e: "dropWhile is_space l = []"
    show "\<forall>c\<in>set (dropWhile is_space l). is_space c" unfolding e by simp
  qed
  also have "\<dots> \<longleftrightarrow> (\<forall>c\<in>set l. is_space c)" by (simp add: dropWhile_eq_Nil_conv)
  finally show ?thesis .
qed

lemma code_lines_count:
  "int (length (filter (\<lambda>l. py_strip l \<noteq> [])
                  (splitlines (strip_java_comments_for_check code)))) =
   effective_line_count code"
  by (simp add: effective_line_count_def py_strip_empty)

lemma filter_loop_filter:
  "filter_loop ms mn mx cleaned = cleaned @ filter (kept mn mx) ms"
proof (induction ms arbitrary: cleaned)
  case Nil
  then show ?case by simp
next
  case (Cons m ms)
  let ?n = "length (filter (\<lambda>l. py_strip l \<noteq> [])
                  (splitlines (strip_java_comments_for_check (original_code m))))"
  have c: "int ?n = effective_line_count (original_code m)" by (rule code_lines_count)
  have z: "?n = 0 \<longleftrightarrow> \<not> 0 < effective_line_count (original_code m)"
    using c by linarith
  show ?case
  proof (cases "kept mn mx m")
    case True
    then have "?n \<noteq> 0" "\<not> (int ?n < mn \<or> int ?n > mx)"
      using c z by (auto simp: kept_def)
    then have "filter_loop (m # ms) mn mx cleaned = filter_loop ms mn mx (cleaned @ [m])"
      by (simp add: Let_def)
    then show ?thesis using True Cons.IH by simp
  next
    case False
    then have "?n = 0 \<or> int ?n < mn \<or> int ?n > mx"
      using c z by (auto simp: kept_def)
    then have "filter_loop (m # ms) mn mx cleaned = filter_loop ms mn mx cleaned"
      by (auto simp: Let_def)
    then show ?thesis using False Cons.IH by simp
  qed
qed

text \<open>
  Claim C2, as stated, promises that a record with exactly \<open>min_lines\<close> effective lines
  is kept for every choice of thresholds. With \<open>min_lines = 0\<close> a record whose code is only
  a comment has exactly \<open>min_lines\<close> effective lines and is dropped by the explicit check
  for an empty list of code lines.
\<close>

theorem filter_boundary_counterexample:
  "effective_line_count (original_code (record_of ''// only a comment'')) = 0 \<and>
   filter_invalid_methods [record_of ''// only a comment''] 0 100 = []"
  by code_simp

text \<open>
  Claim C2, amended. For all records and thresholds (defaults 3 and 100),
  \<open>filter_invalid_methods\<close> returns, in the order of the input, exactly the records whose
  effective line count \<open>c\<close> satisfies \<open>c > 0\<close> and \<open>min_lines \<le> c \<le> max_lines\<close>. A record
  with \<open>min_lines - 1\<close> or with \<open>max_lines + 1\<close> effective lines is dropped; when
  \<open>0 < min_lines \<le> max_lines\<close>, a record with exactly \<open>min_lines\<close> and one with exactly
  \<open>max_lines\<close> effective lines are kept.
\<close>

theorem filter_invalid_methods_subsequence:
  "filter_invalid_methods ms mn mx = filter (kept mn mx) ms \<and>
   filter_invalid_methods_default ms = filter (kept 3 100) ms \<and>
   (\<forall>m\<in>set ms.
      (effective_line_count (original_code m) = mn \<and> 0 < mn \<and> mn \<le> mx
         \<longrightarrow> m \<in> set (filter_invalid_methods ms mn mx)) \<and>
      (effective_line_count (original_code m) = mn - 1
         \<longrightarrow> m \<notin> set (filter_invalid_methods ms mn mx)) \<and>
      (effective_line_count (original_code m) = mx \<and> 0 < mn \<and> mn \<le> mx
         \<longrightarrow> m \<in> set (filter_invalid_methods ms mn mx)) \<and>
      (effective_line_count (original_code m) = mx + 1
         \<longrightarrow> m \<notin> set (filter_invalid_methods ms mn mx)))"
proof -
  have f: "\<And>a b. filter_invalid_methods ms a b = filter (kept a b) ms"
    by (simp add: filter_invalid_methods_def filter_loop_filter)
  show ?thesis
    unfolding filter_invalid_methods_default_def f
    by (auto simp: kept_def)
qed

theorem filter_invalid_methods_subsequence_witness:
  "filter_invalid_methods
     [record_of ''/* none */'', record_of ''a;'', record_of (''a;'' @ [newline] @ ''b; // c''),
      record_of (''a;'' @ [newline] @ ''b;'' @ [newline] @ ''c;'')] 1 2
   = [record_of ''a;'', record_of (''a;'' @ [newline] @ ''b; // c'')] \<and>
   record_of ''a;'' \<in> set (filter_invalid_methods
     [record_of ''/* none */'', record_of ''a;'', record_of (''a;'' @ [newline] @ ''b; // c''),
      record_of (''a;'' @ [newline] @ ''b;'' @ [newline] @ ''c;'')] 1 2) \<and>
   record_of ''/* none */'' \<notin> set (filter_invalid_methods
     [record_of ''/* none */'', record_of ''a;'', record_of (''a;'' @ [newline] @ ''b; // c''),
      record_of (''a;'' @ [newline] @ ''b;'' @ [newline] @ ''c;'')] 1 2)"
proof -
  let ?r0 = "record_of ''/* none */''"
  let ?r1 = "record_of ''a;''"
  let ?r2 = "record_of (''a;'' @ [newline] @ ''b; // c'')"
  let ?r3 = "record_of (''a;'' @ [newline] @ ''b;'' @ [newline] @ ''c;'')"
  let ?ms = "[?r0, ?r1, ?r2, ?r3]"
  have k: "filter (kept 1 2) ?ms = [?r1, ?r2]" by code_simp
  have e0: "effective_line_count (original_code ?r0) = 1 - 1" by code_simp
  have e1: "effective_line_count (original_code ?r1) = 1" by code_simp
  have m0: "?r0 \<in> set ?ms" by simp
  have m1: "?r1 \<in> set ?ms" by simp
  have b: "(0::int) < 1 \<and> (1::int) \<le> 2" by simp
  note t = filter_invalid_methods_subsequence[of ?ms 1 2]
  from t k have 1: "filter_invalid_methods ?ms 1 2 = [?r1, ?r2]" by simp
  from t m1 e1 b have 2: "?r1 \<in> set (filter_invalid_methods ?ms 1 2)" by blast
  from t m0 e0 have 3: "?r0 \<notin> set (filter_invalid_methods ?ms 1 2)" by blast
  from 1 2 3 show ?thesis by blast
qed


section \<open>The end line and the matching brace\<close>

lemma net_Nil: "net [] = 0"
  by (simp add: net_def str_count_def)

lemma net_Cons:
  "net (c # cs) = (if c = CHR ''{'' then 1 else if c = CHR ''}'' then - 1 else 0) + net cs"
  by (simp add: net_def str_count_def)

lemma net_append: "net (xs @ ys) = net xs + net ys"
  by (induction xs) (simp_all add: net_Nil net_Cons)

lemma net_no_braces: "CHR ''{'' \<notin> set xs \<Longrightarrow> CHR ''}'' \<notin> set xs \<Longrightarrow> net xs = 0"
  by (induction xs) (auto simp: net_Nil net_Cons)

lemma scan_line_end:
  "scan_line d l = Inl d' \<Longrightarrow> 1 \<le> d \<Longrightarrow> int d' = int d + net l \<and> 1 \<le> d'"
proof (induction l arbitrary: d)
  case Nil
  then show ?case by (simp add: net_Nil)
next
  case (Cons c cs)
  show ?case
  proof (cases "c = CHR ''{''")
    case True
    then have "scan_line (Suc d) cs = Inl d'" using Cons.prems(1) by simp
    from Cons.IH[OF this] show ?thesis using True by (simp add: net_Cons)
  next
    case False
    show ?thesis
    proof (cases "c = CHR ''}''")
      case True
      then have d2: "\<not> d \<le> 1" and s: "scan_line (d - 1) cs = Inl d'"
        using Cons.prems(1) by (simp_all split: if_splits)
      from d2 have "1 \<le> d - 1" by simp
      from Cons.IH[OF s this] show ?thesis using True d2 by (simp add: net_Cons)
    next
      case nc: False
      then have "scan_line d cs = Inl d'" using Cons.prems(1) False by simp
      from Cons.IH[OF this Cons.prems(2)] show ?thesis using False nc by (simp add: net_Cons)
    qed
  qed
qed

lemma scan_line_found:
  "scan_line d l = Inr rest \<Longrightarrow> 1 \<le> d \<Longrightarrow> int d + net l = net rest"
proof (induction l arbitrary: d)
  case Nil
  then show ?case by simp
next
  case (Cons c cs)
  show ?case
  proof (cases "c = CHR ''{''")
    case True
    then have "scan_line (Suc d) cs = Inr rest" using Cons.prems(1) by simp
    from Cons.IH[OF this] show ?thesis using True by (simp add: net_Cons)
  next
    case False
    show ?thesis
    proof (cases "c = CHR ''}''")
      case True
      show ?thesis
      proof (cases "d \<le> 1")
        case le: True
        then have "rest = cs" using Cons.prems(1) True by simp
        moreover have "d = 1" using le Cons.prems(2) by simp
        ultimately show ?thesis using True by (simp add: net_Cons)
      next
        case d2: False
        then have s: "scan_line (d - 1) cs = Inr rest" using Cons.prems(1) True by simp
        from d2 have "1 \<le> d - 1" by simp
        from Cons.IH[OF s this] show ?thesis using True d2 by (simp add: net_Cons)
      qed
    next
      case nc: False
      then have "scan_line d cs = Inr rest" using Cons.prems(1) False by simp
      from Cons.IH[OF this Cons.prems(2)] show ?thesis using False nc by (simp add: net_Cons)
    qed
  qed
qed

lemma scan_lines_first_zero:
  "scan_lines d n ls = Some (e, rest) \<Longrightarrow> 1 \<le> d \<Longrightarrow> net rest = 0 \<Longrightarrow>
   \<exists>k. first_zero (int d) ls = Some k \<and> e = n + k"
proof (induction ls arbitrary: d n)
  case Nil
  then show ?case by simp
next
  case (Cons l ls)
  show ?case
  proof (cases "scan_line d l")
    case (Inr r)
    then have "e = n" "rest = r" using Cons.prems(1) by simp_all
    moreover from scan_line_found[OF Inr Cons.prems(2)] have "int d + net l = net r" .
    ultimately show ?thesis using Cons.prems(3) by simp
  next
    case (Inl d')
    from scan_line_end[OF Inl Cons.prems(2)] have d': "int d' = int d + net l" "1 \<le> d'"
      by simp_all
    have "scan_lines d' (Suc n) ls = Some (e, rest)" using Cons.prems(1) Inl by simp
    from Cons.IH[OF this d'(2) Cons.prems(3)]
    obtain k where k: "first_zero (int d') ls = Some k" "e = Suc n + k" by blast
    have "int d + net l \<noteq> 0" using d' by linarith
    then show ?thesis using k d'(1) by simp
  qed
qed

text \<open>
  Claim C1, as stated, says that the end line is the line of the brace that matches the
  first opening brace. In the two lines below the text is well nested, the first \<open>{\<close> is
  on line 1 and its matching \<open>}\<close> is on line 1 too, but a second block opens on the same
  line: the running depth after line 1 is 1, and \<open>_brace_matched_end\<close> returns 2.
\<close>

theorem brace_matched_end_matching_counterexample:
  "well_nested [''void f() { } void g() {'', ''}''] \<and>
   first_open [''void f() { } void g() {'', ''}''] (nat (1 - 1)) = Some 0 \<and>
   matching_close [''void f() { } void g() {'', ''}''] 0 = Some (0, '' void g() {'') \<and>
   brace_matched_end [''void f() { } void g() {'', ''}''] 1 = Inr (Some 2) \<and>
   brace_matched_end [''void f() { } void g() {'', ''}''] 1 \<noteq> Inr (Some (int 0 + 1))"
  by code_simp

text \<open>
  Claim C1, amended. Let the start line be at least 1, let the first line at or after it
  that contains \<open>{\<close> have 0-based index \<open>p\<close>, with no \<open>}\<close> before its first \<open>{\<close>, and let
  the brace matching that \<open>{\<close> be on the line with 0-based index \<open>e\<close>, followed on that
  line by a text with as many \<open>{\<close> as \<open>}\<close> (for instance by no brace at all). Then
  \<open>_brace_matched_end\<close> returns the 1-based number \<open>e + 1\<close> of that line, the first line
  after which the running depth, counted per line from line \<open>p\<close> on, is zero.
\<close>

theorem brace_matched_end_matching:
  assumes s: "1 \<le> sl"
    and fo: "first_open lines (nat (sl - 1)) = Some p"
    and pre: "CHR ''}'' \<notin> set (takeWhile (\<lambda>c. c \<noteq> CHR ''{'') (lines ! p))"
    and mc: "matching_close lines p = Some (e, rest)"
    and bal: "net rest = 0"
  shows "brace_matched_end lines sl = Inr (Some (int e + 1))"
proof -
  let ?l = "lines ! p"
  let ?pre = "takeWhile (\<lambda>c. c \<noteq> CHR ''{'') ?l"
  let ?suf = "dropWhile (\<lambda>c. c \<noteq> CHR ''{'') ?l"
  from first_open_props[OF fo] have pl: "p < length lines" and ho: "has_open ?l" by simp_all
  have dr: "drop p lines = ?l # drop (Suc p) lines"
    using pl by (simp add: Cons_nth_drop_Suc)
  have "?suf \<noteq> []" using ho by (simp add: has_open_def)
  moreover have "?suf \<noteq> [] \<Longrightarrow> \<not> hd ?suf \<noteq> CHR ''{''" by (rule hd_dropWhile)
  ultimately obtain t where suf: "?suf = CHR ''{'' # t" by (cases ?suf) auto
  have "CHR ''{'' \<notin> set ?pre" by (auto dest: set_takeWhileD)
  then have "net ?pre = 0" using pre by (rule net_no_braces)
  moreover have "net ?l = net ?pre + net ?suf"
    by (metis net_append takeWhile_dropWhile_id)
  ultimately have nl: "net ?l = 1 + net t" using suf by (simp add: net_Cons)
  have sl0: "scan_line 0 ?suf = scan_line 1 t" using suf by simp
  have mc': "scan_lines 0 p (?suf # drop (Suc p) lines) = Some (e, rest)"
    using mc by (simp add: matching_close_def)
  have "\<exists>k. first_zero 0 (drop p lines) = Some k \<and> e = p + k"
  proof (cases "scan_line 1 t")
    case (Inr r)
    then have "e = p" "rest = r" using mc' sl0 by simp_all
    moreover from scan_line_found[OF Inr] have "1 + net t = net r" by simp
    ultimately show ?thesis using bal nl dr by simp
  next
    case (Inl d')
    from scan_line_end[OF Inl] have d': "int d' = 1 + net t" "1 \<le> d'" by simp_all
    have "scan_lines d' (Suc p) (drop (Suc p) lines) = Some (e, rest)"
      using mc' sl0 Inl by simp
    from scan_lines_first_zero[OF this d'(2) bal]
    obtain k where k: "first_zero (int d') (drop (Suc p) lines) = Some k" "e = Suc p + k"
      by blast
    have "net ?l \<noteq> 0" using d' nl by linarith
    then show ?thesis using k d'(1) nl dr by simp
  qed
  then obtain k where "first_zero 0 (drop p lines) = Some k" "e = p + k" by blast
  then show ?thesis using brace_matched_end_nat[OF s, of lines] fo by simp
qed

theorem brace_matched_end_matching_witness:
  "first_open [''void f(int a,'', ''  int b) {'', ''  if (a) { b(); }'', ''}'', ''int x;'']
     (nat (1 - 1)) = Some 1 \<and>
   matching_close [''void f(int a,'', ''  int b) {'', ''  if (a) { b(); }'', ''}'', ''int x;'']
     1 = Some (3, []) \<and>
   brace_matched_end [''void f(int a,'', ''  int b) {'', ''  if (a) { b(); }'', ''}'', ''int x;'']
     1 = Inr (Some 4)"
proof -
  let ?ls = "[''void f(int a,'', ''  int b) {'', ''  if (a) { b(); }'', ''}'', ''int x;'']"
  have h: "(1::int) \<le> 1" by simp
  have f: "first_open ?ls (nat (1 - 1)) = Some 1" by code_simp
  have p: "CHR ''}'' \<notin> set (takeWhile (\<lambda>c. c \<noteq> CHR ''{'') (?ls ! 1))" by code_simp
  have m: "matching_close ?ls 1 = Some (3, [])" by code_simp
  have b: "net [] = 0" by code_simp
  from brace_matched_end_matching[OF h f p m b] f m show ?thesis by simp
qed


end
